theory Spec2Isabelle
  imports Main "HOL-Library.Sublist"
begin

section \<open>The comment stripper (\<^verbatim>\<open>remove_csharp_comments\<close>)\<close>

text \<open>
  A text is a list of characters. The regular expression of the source only ever compares
  a character with \<^verbatim>\<open>/\<close>, \<^verbatim>\<open>*\<close> and the line feed, so all other characters
  behave alike. The line feed is the only line terminator that the anchor \<^verbatim>\<open>$\<close> of
  Python's \<^verbatim>\<open>re\<close> knows; the driver reads its files in text mode, where every line
  ending arrives as a line feed.
\<close>

abbreviation newline :: char where
  "newline \<equiv> CHR 0x0A"

abbreviation slash :: char where
  "slash \<equiv> CHR ''/''"

abbreviation star :: char where
  "star \<equiv> CHR ''*''"

text \<open>
  \<^verbatim>\<open>.*?$\<close> under \<^verbatim>\<open>re.MULTILINE | re.DOTALL\<close>: the lazy quantifier first tries
  the anchor, which holds at the end of the text and just before a line feed; otherwise
  it consumes one character (any character, by \<^verbatim>\<open>DOTALL\<close>) and tries again.
  The result is the matched text and the rest of the input.
\<close>

fun lazy_dollar :: "string \<Rightarrow> string \<times> string" where
  "lazy_dollar [] = ([], [])"
| "lazy_dollar (c # cs) =
     (if c = newline then ([], c # cs)
      else (case lazy_dollar cs of (m, rest) \<Rightarrow> (c # m, rest)))"

text \<open>
  \<^verbatim>\<open>.*?\*/\<close> under \<^verbatim>\<open>re.DOTALL\<close>: the lazy quantifier first tries the two
  characters of the closing marker; otherwise it consumes one character and tries again.
  There is no match when the text ends first.
\<close>

fun lazy_close :: "string \<Rightarrow> (string \<times> string) option" where
  "lazy_close (a # b # cs) =
     (if a = star \<and> b = slash then Some ([a, b], cs)
      else (case lazy_close (b # cs) of
              None \<Rightarrow> None
            | Some (m, rest) \<Rightarrow> Some (a # m, rest)))"
| "lazy_close _ = None"

text \<open>\<^verbatim>\<open>single_line_comment_pattern = r'//.*?$'\<close>, matched at the start of the text.\<close>

fun single_line_comment_pattern :: "string \<Rightarrow> (string \<times> string) option" where
  "single_line_comment_pattern (a # b # cs) =
     (if a = slash \<and> b = slash
      then (case lazy_dollar cs of (m, rest) \<Rightarrow> Some (a # b # m, rest))
      else None)"
| "single_line_comment_pattern _ = None"

text \<open>\<^verbatim>\<open>multi_line_comment_pattern = r'/\*.*?\*/'\<close>, matched at the start of the text.\<close>

fun multi_line_comment_pattern :: "string \<Rightarrow> (string \<times> string) option" where
  "multi_line_comment_pattern (a # b # cs) =
     (if a = slash \<and> b = star
      then (case lazy_close cs of
              None \<Rightarrow> None
            | Some (m, rest) \<Rightarrow> Some (a # b # m, rest))
      else None)"
| "multi_line_comment_pattern _ = None"

text \<open>
  The compiled pattern is the alternation of the two groups; the first alternative is
  tried first. A match records which group matched, and the matched text.
\<close>

datatype group = Single_line | Multi_line

type_synonym match = "group \<times> string"

definition pattern :: "string \<Rightarrow> (match \<times> string) option" where
  "pattern t =
     (case single_line_comment_pattern t of
        Some (m, rest) \<Rightarrow> Some ((Single_line, m), rest)
      | None \<Rightarrow>
          (case multi_line_comment_pattern t of
             Some (m, rest) \<Rightarrow> Some ((Multi_line, m), rest)
           | None \<Rightarrow> None))"

lemma lazy_dollar_length: "lazy_dollar cs = (m, rest) \<Longrightarrow> length rest \<le> length cs"
  by (induction cs arbitrary: m rest) (auto split: if_splits prod.splits)

lemma lazy_close_length: "lazy_close cs = Some (m, rest) \<Longrightarrow> length rest < length cs"
  by (induction cs arbitrary: m rest rule: lazy_close.induct)
     (auto split: if_splits option.splits)

lemma pattern_length: "pattern t = Some (mt, rest) \<Longrightarrow> length rest < length t"
proof (cases t rule: single_line_comment_pattern.cases)
  case (1 a b cs)
  assume "pattern t = Some (mt, rest)"
  with 1 show ?thesis
    by (auto simp: pattern_def split: if_splits prod.splits option.splits
        dest: lazy_dollar_length lazy_close_length)
qed (auto simp: pattern_def)

text \<open>
  \<^verbatim>\<open>pattern.sub\<close> scans the text from left to right. At each position it tries the
  pattern; a match becomes one piece and the scan resumes behind it, otherwise the
  character at the position is kept and the scan moves one character on.
\<close>

datatype piece = Kept char | Matched match

function pieces :: "string \<Rightarrow> piece list" where
  "pieces [] = []"
| "pieces (c # cs) =
     (case pattern (c # cs) of
        Some (mt, rest) \<Rightarrow> Matched mt # pieces rest
      | None \<Rightarrow> Kept c # pieces cs)"
  by pat_completeness auto
termination
  by (relation "measure length") (auto dest: pattern_length)

text \<open>The replacement callback of the source returns the empty text for every match.\<close>

definition replacer :: "match \<Rightarrow> string" where
  "replacer mt = []"

text \<open>
  \<^verbatim>\<open>sub\<close> joins the pieces: a kept character stands for itself, a match is replaced
  by what the callback returns for it.
\<close>

fun expand :: "(match \<Rightarrow> string) \<Rightarrow> piece \<Rightarrow> string" where
  "expand repl (Kept c) = [c]"
| "expand repl (Matched mt) = repl mt"

definition sub :: "(match \<Rightarrow> string) \<Rightarrow> string \<Rightarrow> string" where
  "sub repl t = concat (map (expand repl) (pieces t))"

definition remove_csharp_comments :: "string \<Rightarrow> string" where
  "remove_csharp_comments code = sub replacer code"

text \<open>The part of the input that a piece of the scan covers.\<close>

fun covered :: "piece \<Rightarrow> string" where
  "covered (Kept c) = [c]"
| "covered (Matched (g, m)) = m"

section \<open>The directory driver (\<^verbatim>\<open>process_directory\<close>)\<close>

text \<open>
  The driver reaches the file system through Python's \<^verbatim>\<open>os\<close> module, \<^verbatim>\<open>open\<close>
  and \<^verbatim>\<open>print\<close>. Every such call is recorded, in order, as an event of the run. The
  calls themselves are parameters of the model: the path functions are functions on
  strings, and the three calls that can fail answer from the events so far, so that a
  read can see what the run wrote before. A failing call raises an exception that carries
  its message (\<^verbatim>\<open>OSError\<close>, \<^verbatim>\<open>UnicodeDecodeError\<close>: instances of
  \<^verbatim>\<open>Exception\<close>). Printing is taken to succeed.
\<close>

type_synonym path = string

datatype exn = Exception (message: string)

datatype event =
    is_Read: Read path "exn + string"
  | is_Makedirs: Makedirs path "exn option"
  | is_Write: Write path string "exn option"
  | is_Print: Print string

text \<open>
  \<open>os_walk\<close> is the sequence of triples \<^verbatim>\<open>(subdir, dirs, files)\<close> that
  \<^verbatim>\<open>os.walk(root_dir)\<close> yields during the run.
\<close>

record os_env =
  os_path_abspath :: "path \<Rightarrow> path"
  os_path_isdir :: "path \<Rightarrow> bool"
  os_walk :: "path \<Rightarrow> (path \<times> path list \<times> path list) list"
  os_path_join :: "path \<Rightarrow> path \<Rightarrow> path"
  os_path_relpath :: "path \<Rightarrow> path \<Rightarrow> path"
  os_path_dirname :: "path \<Rightarrow> path"
  open_read :: "event list \<Rightarrow> path \<Rightarrow> exn + string"
  os_makedirs :: "event list \<Rightarrow> path \<Rightarrow> exn option"
  open_write :: "event list \<Rightarrow> path \<Rightarrow> string \<Rightarrow> exn option"

text \<open>The two counters of the run, and the events so far.\<close>

record run_state =
  file_count :: int
  processed_count :: int
  trace :: "event list"

definition emit :: "event \<Rightarrow> run_state \<Rightarrow> run_state" where
  "emit e s = s\<lparr>trace := trace s @ [e]\<rparr>"

definition print :: "string \<Rightarrow> run_state \<Rightarrow> run_state" where
  "print line s = emit (Print line) s"

text \<open>\<^verbatim>\<open>str\<close> of a Python integer, as the f-strings of the summary format it.\<close>

fun str_nat :: "nat \<Rightarrow> string" where
  "str_nat n =
     (if n < 10 then [''0123456789'' ! n]
      else str_nat (n div 10) @ [''0123456789'' ! (n mod 10)])"

declare str_nat.simps [simp del]

definition str_int :: "int \<Rightarrow> string" where
  "str_int i = (if i < 0 then CHR ''-'' # str_nat (nat (- i)) else str_nat (nat i))"

text \<open>\<^verbatim>\<open>filename.endswith('.cs')\<close>\<close>

definition endswith :: "string \<Rightarrow> string \<Rightarrow> bool" where
  "endswith s suf = suffix suf s"

text \<open>
  The \<^verbatim>\<open>try\<close> block around \<^verbatim>\<open>open(path, 'w')\<close> and \<^verbatim>\<open>write(cleaned)\<close>, which
  both branches of the source have: a failure is printed and goes no further.
\<close>

definition try_write :: "os_env \<Rightarrow> path \<Rightarrow> string \<Rightarrow> run_state \<Rightarrow> run_state" where
  "try_write os p cleaned s =
     (case open_write os (trace s) p cleaned of
        None \<Rightarrow> emit (Write p cleaned None) s
      | Some e \<Rightarrow>
          print (''[ERROR] Failed to write '' @ p @ '': '' @ message e)
            (emit (Write p cleaned (Some e)) s))"

text \<open>
  The branch \<^verbatim>\<open>if cleaned != content\<close> behind the increment of the counter. An
  output directory that is \<^verbatim>\<open>None\<close> or the empty string is false in Python and
  selects writing in place. \<^verbatim>\<open>os.makedirs\<close> stands outside the \<^verbatim>\<open>try\<close> block, so
  its exception leaves the function: the result \<open>Inl\<close> carries it, with the state
  reached.
\<close>

definition write_changed ::
  "os_env \<Rightarrow> path \<Rightarrow> path option \<Rightarrow> path \<Rightarrow> string \<Rightarrow> run_state \<Rightarrow> (exn \<times> run_state) + run_state" where
  "write_changed os root_dir output_dir full_path cleaned s =
     (case output_dir of
        None \<Rightarrow> Inr (try_write os full_path cleaned s)
      | Some out \<Rightarrow>
          if out = [] then Inr (try_write os full_path cleaned s)
          else
            let rel_path = os_path_relpath os full_path root_dir;
                out_path = os_path_join os out rel_path;
                d = os_path_dirname os out_path
            in (case os_makedirs os (trace s) d of
                  Some e \<Rightarrow> Inl (e, emit (Makedirs d (Some e)) s)
                | None \<Rightarrow> Inr (try_write os out_path cleaned (emit (Makedirs d None) s))))"

text \<open>The body of the inner loop, for one file name of one directory of the walk.\<close>

definition process_file ::
  "os_env \<Rightarrow> path \<Rightarrow> path option \<Rightarrow> path \<Rightarrow> path \<Rightarrow> run_state \<Rightarrow> (exn \<times> run_state) + run_state" where
  "process_file os root_dir output_dir subdir filename s =
     (if endswith filename ''.cs'' then
        let s1 = s\<lparr>file_count := file_count s + 1\<rparr>;
            full_path = os_path_join os subdir filename
        in (case open_read os (trace s1) full_path of
              Inl e \<Rightarrow>
                Inr (print (''[ERROR] Failed to read '' @ full_path @ '': '' @ message e)
                      (emit (Read full_path (Inl e)) s1))
            | Inr content \<Rightarrow>
                let s2 = emit (Read full_path (Inr content)) s1;
                    cleaned = remove_csharp_comments content
                in (case (if cleaned \<noteq> content
                          then write_changed os root_dir output_dir full_path cleaned
                                 (s2\<lparr>processed_count := processed_count s2 + 1\<rparr>)
                          else Inr s2) of
                      Inl x \<Rightarrow> Inl x
                    | Inr s3 \<Rightarrow> Inr (print (''Processed: '' @ full_path) s3)))
      else Inr s)"

text \<open>The two loops: an exception that leaves the body leaves the loops.\<close>

fun process_files ::
  "os_env \<Rightarrow> path \<Rightarrow> path option \<Rightarrow> path \<Rightarrow> path list \<Rightarrow> run_state \<Rightarrow> (exn \<times> run_state) + run_state" where
  "process_files os root_dir output_dir subdir [] s = Inr s"
| "process_files os root_dir output_dir subdir (filename # files) s =
     (case process_file os root_dir output_dir subdir filename s of
        Inl x \<Rightarrow> Inl x
      | Inr s' \<Rightarrow> process_files os root_dir output_dir subdir files s')"

fun process_walk ::
  "os_env \<Rightarrow> path \<Rightarrow> path option \<Rightarrow> (path \<times> path list \<times> path list) list \<Rightarrow> run_state \<Rightarrow>
     (exn \<times> run_state) + run_state" where
  "process_walk os root_dir output_dir [] s = Inr s"
| "process_walk os root_dir output_dir ((subdir, dirs, files) # rest) s =
     (case process_files os root_dir output_dir subdir files s of
        Inl x \<Rightarrow> Inl x
      | Inr s' \<Rightarrow> process_walk os root_dir output_dir rest s')"

definition initial_state :: run_state where
  "initial_state = \<lparr>file_count = 0, processed_count = 0, trace = []\<rparr>"

definition process_directory :: "os_env \<Rightarrow> path \<Rightarrow> path option \<Rightarrow> (exn \<times> run_state) + run_state" where
  "process_directory os root_dir0 output_dir =
     (let root_dir = os_path_abspath os root_dir0 in
      if \<not> os_path_isdir os root_dir
      then Inr (print (''[ERROR] Directory not found: '' @ root_dir) initial_state)
      else (case process_walk os root_dir output_dir (os_walk os root_dir) initial_state of
              Inl x \<Rightarrow> Inl x
            | Inr s \<Rightarrow>
                Inr (print (''Files with comments removed: '' @ str_int (processed_count s))
                      (print (''Total .cs files found: '' @ str_int (file_count s)) s))))"

text \<open>The state in which a run ends, whether it returns or an exception leaves it.\<close>

fun result_state :: "(exn \<times> run_state) + run_state \<Rightarrow> run_state" where
  "result_state (Inl (e, s)) = s"
| "result_state (Inr s) = s"

text \<open>A read that delivered a content which the stripper changes.\<close>

fun changed_read :: "event \<Rightarrow> bool" where
  "changed_read (Read q (Inr content)) = (remove_csharp_comments content \<noteq> content)"
| "changed_read _ = False"

text \<open>
  The content delivered by the most recent read of a trace (none when that read failed),
  and the traces in which every \<^verbatim>\<open>makedirs\<close> and every write comes behind a read
  whose content the stripper changes, the written text being the stripped content.
\<close>

fun last_content :: "string option \<Rightarrow> event list \<Rightarrow> string option" where
  "last_content l [] = l"
| "last_content l (Read q r # es) =
     last_content (case r of Inl e \<Rightarrow> None | Inr content \<Rightarrow> Some content) es"
| "last_content l (Makedirs d r # es) = last_content l es"
| "last_content l (Write p c r # es) = last_content l es"
| "last_content l (Print x # es) = last_content l es"

fun justified :: "string option \<Rightarrow> event list \<Rightarrow> bool" where
  "justified l [] = True"
| "justified l (Read q r # es) =
     justified (case r of Inl e \<Rightarrow> None | Inr content \<Rightarrow> Some content) es"
| "justified l (Makedirs d r # es) =
     ((\<exists>content. l = Some content \<and> remove_csharp_comments content \<noteq> content) \<and>
      justified l es)"
| "justified l (Write p c r # es) =
     ((\<exists>content. l = Some content \<and> c = remove_csharp_comments content \<and> c \<noteq> content) \<and>
      justified l es)"
| "justified l (Print x # es) = justified l es"

text \<open>
  What every run keeps true: the first counter is the number of reads attempted, the
  second the number of reads whose content the stripper changes, and the file system is
  only touched behind such a read.
\<close>

definition run_inv :: "run_state \<Rightarrow> bool" where
  "run_inv s \<longleftrightarrow>
     file_count s = int (length (filter is_Read (trace s))) \<and>
     processed_count s = int (length (filter changed_read (trace s))) \<and>
     justified None (trace s)"

text \<open>
  A small file system for concrete runs: the directory \<^verbatim>\<open>/R\<close> with the given file
  names, the answers of the three failing calls given per path. Of its files,
  \<^verbatim>\<open>a.cs\<close> ends in a comment, \<^verbatim>\<open>b.cs\<close> has none and \<^verbatim>\<open>c.cs\<close> cannot be
  read.
\<close>

definition sample_reads :: "path \<Rightarrow> exn + string" where
  "sample_reads p =
     (if p = ''/R/a.cs'' then Inr ''x(); // end''
      else if p = ''/R/b.cs'' then Inr ''y();''
      else Inl (Exception ''Permission denied''))"

definition sample_os ::
  "path list \<Rightarrow> (path \<Rightarrow> exn + string) \<Rightarrow> (path \<Rightarrow> exn option) \<Rightarrow> (path \<Rightarrow> exn option) \<Rightarrow> os_env" where
  "sample_os names reads mkdirs writes =
     \<lparr>os_path_abspath = (\<lambda>p. p),
      os_path_isdir = (\<lambda>p. p = ''/R''),
      os_walk = (\<lambda>p. [(p, [], names)]),
      os_path_join = (\<lambda>a b. a @ ''/'' @ b),
      os_path_relpath = (\<lambda>p start. drop (length start + 1) p),
      os_path_dirname = (\<lambda>p. rev (tl (dropWhile (\<lambda>c. c \<noteq> slash) (rev p)))),
      open_read = (\<lambda>h p. reads p),
      os_makedirs = (\<lambda>h d. mkdirs d),
      open_write = (\<lambda>h p c. writes p)\<rparr>"

section \<open>Basic facts about the scan\<close>

lemma rcc_Nil [simp]: "remove_csharp_comments [] = []"
  by (simp add: remove_csharp_comments_def sub_def)

lemma rcc_Cons:
  "remove_csharp_comments (c # cs) =
     (case pattern (c # cs) of
        Some (mt, rest) \<Rightarrow> remove_csharp_comments rest
      | None \<Rightarrow> c # remove_csharp_comments cs)"
  by (simp add: remove_csharp_comments_def sub_def replacer_def split: option.splits)

lemma lazy_dollar_eq:
  "lazy_dollar cs = (takeWhile (\<lambda>c. c \<noteq> newline) cs, dropWhile (\<lambda>c. c \<noteq> newline) cs)"
  by (induction cs) auto

lemma lazy_close_append: "lazy_close cs = Some (m, rest) \<Longrightarrow> cs = m @ rest"
  by (induction cs arbitrary: m rest rule: lazy_close.induct)
     (auto split: if_splits option.splits)

lemma pattern_append: "pattern t = Some ((g, m), rest) \<Longrightarrow> t = m @ rest"
proof (cases t rule: single_line_comment_pattern.cases)
  case (1 a b cs)
  assume "pattern t = Some ((g, m), rest)"
  with 1 show ?thesis
    by (auto simp: pattern_def lazy_dollar_eq split: if_splits option.splits
        dest: lazy_close_append)
qed (auto simp: pattern_def)

lemma pattern_not_slash: "c \<noteq> slash \<Longrightarrow> pattern (c # cs) = None"
  by (cases cs) (auto simp: pattern_def)

lemma pattern_slash_None:
  "pattern (slash # cs) = None \<longleftrightarrow>
     (case cs of [] \<Rightarrow> True
      | d # ds \<Rightarrow> d \<noteq> slash \<and> (d = star \<longrightarrow> lazy_close ds = None))"
  by (cases cs) (auto simp: pattern_def lazy_dollar_eq split: option.splits)

lemma rcc_Cons_not_slash: "c \<noteq> slash \<Longrightarrow> remove_csharp_comments (c # cs) = c # remove_csharp_comments cs"
  by (simp add: rcc_Cons pattern_not_slash)

lemma lazy_close_tl: "lazy_close (c # cs) = None \<Longrightarrow> lazy_close cs = None"
  by (cases cs) (auto split: if_splits option.splits)

lemma lazy_close_None_iff:
  "lazy_close (c # d # ds) = None \<longleftrightarrow> \<not> (c = star \<and> d = slash) \<and> lazy_close (d # ds) = None"
  by (auto split: option.splits)

lemma lazy_close_None_suffix:
  "lazy_close (xs @ ys) = None \<Longrightarrow> lazy_close ys = None"
  by (induction xs) (auto dest: lazy_close_tl)

lemma lazy_close_rcc: "lazy_close t = None \<Longrightarrow> lazy_close (remove_csharp_comments t) = None"
proof (induction t rule: pieces.induct)
  case 1
  then show ?case by simp
next
  case (2 c cs)
  show ?case
  proof (cases "pattern (c # cs)")
    case None
    from 2 None have ih: "lazy_close cs = None \<Longrightarrow> lazy_close (remove_csharp_comments cs) = None"
      by simp
    show ?thesis
    proof (cases cs)
      case Nil
      with None show ?thesis by (simp add: rcc_Cons)
    next
      case (Cons d ds)
      from "2.prems" Cons have nc: "\<not> (c = star \<and> d = slash)" and cl: "lazy_close cs = None"
        by (metis lazy_close_None_iff)+
      show ?thesis
      proof (cases "d = slash")
        case True
        with nc have "c \<noteq> star" by simp
        then show ?thesis using None ih[OF cl]
          by (cases "remove_csharp_comments cs") (auto simp: rcc_Cons split: option.splits)
      next
        case False
        then have "remove_csharp_comments cs = d # remove_csharp_comments ds"
          using Cons by (simp add: rcc_Cons_not_slash)
        then show ?thesis using None ih[OF cl] False
          by (auto simp: rcc_Cons split: option.splits)
      qed
    qed
  next
    case (Some a)
    then obtain g m rest where a: "a = ((g, m), rest)" by (cases a) auto
    with Some have "c # cs = m @ rest" by (auto dest: pattern_append)
    with "2.prems" have "lazy_close rest = None"
      using lazy_close_None_suffix by metis
    with 2 Some a show ?thesis by (simp add: rcc_Cons)
  qed
qed

lemma pattern_rcc_None:
  assumes "pattern (c # cs) = None"
  shows "pattern (c # remove_csharp_comments cs) = None"
proof (cases "c = slash")
  case False
  then show ?thesis by (rule pattern_not_slash)
next
  case True
  show ?thesis
  proof (cases cs)
    case Nil
    with True show ?thesis by (simp add: pattern_slash_None)
  next
    case (Cons d ds)
    with assms True have d: "d \<noteq> slash" and cl: "d = star \<longrightarrow> lazy_close ds = None"
      by (auto simp: pattern_slash_None)
    from d Cons have "remove_csharp_comments cs = d # remove_csharp_comments ds"
      by (simp add: rcc_Cons_not_slash)
    with True d cl show ?thesis
      by (auto simp: pattern_slash_None lazy_close_rcc)
  qed
qed

lemma rcc_pieces: "remove_csharp_comments t = concat (map (expand replacer) (pieces t))"
  by (simp add: remove_csharp_comments_def sub_def)

lemma pieces_covered: "concat (map covered (pieces t)) = t"
proof (induction t rule: pieces.induct)
  case 1
  then show ?case by simp
next
  case (2 c cs)
  show ?case
  proof (cases "pattern (c # cs)")
    case None
    with 2 show ?thesis by simp
  next
    case (Some a)
    then obtain g m rest where a: "a = ((g, m), rest)" by (cases a) auto
    with Some have app: "c # cs = m @ rest" by (auto dest: pattern_append)
    from Some a have p: "pieces (c # cs) = Matched (g, m) # pieces rest" by simp
    from 2 Some a have ih: "concat (map covered (pieces rest)) = rest" by simp
    show ?thesis unfolding p using ih app by simp
  qed
qed

lemma lazy_close_None_sublist: "lazy_close cs = None \<longleftrightarrow> \<not> sublist ''*/'' cs"
  by (induction cs rule: lazy_close.induct)
     (auto simp: sublist_Cons_right split: option.splits)

lemma lazy_close_first:
  "\<not> sublist ''*/'' body \<Longrightarrow> lazy_close (body @ ''*/'' @ rest) = Some (body @ ''*/'', rest)"
proof (induction body)
  case Nil
  then show ?case by simp
next
  case (Cons a bs)
  then have ih: "lazy_close (bs @ ''*/'' @ rest) = Some (bs @ ''*/'', rest)"
    and np: "\<not> prefix ''*/'' (a # bs)"
    by (auto simp: sublist_Cons_right)
  show ?case
  proof (cases bs)
    case Nil
    with ih show ?thesis by simp
  next
    case (Cons b bs')
    with np have "\<not> (a = star \<and> b = slash)" by auto
    with ih Cons show ?thesis by simp
  qed
qed

lemma pattern_line:
  "pattern (slash # slash # cs) =
     Some ((Single_line, ''//'' @ takeWhile (\<lambda>c. c \<noteq> newline) cs), dropWhile (\<lambda>c. c \<noteq> newline) cs)"
  by (simp add: pattern_def lazy_dollar_eq)

lemma pattern_block:
  "\<not> sublist ''*/'' body \<Longrightarrow>
     pattern (''/*'' @ body @ ''*/'' @ rest) = Some ((Multi_line, ''/*'' @ body @ ''*/''), rest)"
  using lazy_close_first[of body rest] by (simp add: pattern_def)

lemma pattern_unterminated: "\<not> sublist ''*/'' cs \<Longrightarrow> pattern (''/*'' @ cs) = None"
  using lazy_close_None_sublist[of cs] by (simp add: pattern_def)

lemma pieces_clean_prefix:
  "\<not> sublist ''//'' pre \<Longrightarrow> \<not> sublist ''/*'' pre \<Longrightarrow> \<not> suffix ''/'' pre \<Longrightarrow>
     pieces (pre @ t) = map Kept pre @ pieces t"
proof (induction pre)
  case Nil
  then show ?case by simp
next
  case (Cons c cs)
  then have ih: "pieces (cs @ t) = map Kept cs @ pieces t"
    by (auto simp: sublist_Cons_right suffix_Cons)
  have "pattern (c # cs @ t) = None"
  proof (cases "c = slash")
    case False
    then show ?thesis by (rule pattern_not_slash)
  next
    case True
    with Cons.prems obtain d ds where "cs = d # ds" "d \<noteq> slash" "d \<noteq> star"
      by (cases cs) (auto simp: sublist_Cons_right suffix_Cons)
    with True show ?thesis by (simp add: pattern_slash_None)
  qed
  with ih show ?case by simp
qed

lemma pieces_split:
  "pieces t = ps @ qs \<Longrightarrow> \<exists>t2. t = concat (map covered ps) @ t2 \<and> pieces t2 = qs"
proof (induction t arbitrary: ps rule: pieces.induct)
  case 1
  then show ?case by simp
next
  case (2 c cs)
  show ?case
  proof (cases ps)
    case Nil
    with "2.prems" show ?thesis by auto
  next
    case (Cons p ps')
    show ?thesis
    proof (cases "pattern (c # cs)")
      case None
      with "2.prems" Cons have p: "p = Kept c" and "pieces cs = ps' @ qs" by auto
      with "2.IH"(1)[OF None] obtain t2 where "cs = concat (map covered ps') @ t2" "pieces t2 = qs"
        by blast
      with p Cons show ?thesis by auto
    next
      case (Some a)
      then obtain g m rest where a: "a = ((g, m), rest)" by (cases a) auto
      with Some have app: "c # cs = m @ rest" by (auto dest: pattern_append)
      from "2.prems" Cons Some a have p: "p = Matched (g, m)" and "pieces rest = ps' @ qs" by auto
      with "2.IH"(2)[OF Some[unfolded a] refl] obtain t2 where "rest = concat (map covered ps') @ t2" "pieces t2 = qs"
        by blast
      with p Cons app show ?thesis by auto
    qed
  qed
qed

lemma dropWhile_head: "dropWhile P xs = r # rs \<Longrightarrow> \<not> P r"
  by (induction xs) (auto split: if_splits)

lemma pieces_line_head:
  assumes "pieces t = Matched (Single_line, m) # qs"
  shows "\<exists>body. m = ''//'' @ body \<and> newline \<notin> set body \<and>
           (qs = [] \<or> (\<exists>qs'. qs = Kept newline # qs'))"
proof (cases t)
  case Nil
  with assms show ?thesis by simp
next
  case (Cons c cs)
  with assms obtain rest where pat: "pattern (c # cs) = Some ((Single_line, m), rest)"
    and qs: "qs = pieces rest"
    by (auto split: option.splits)
  from pat obtain cs' where cs: "c # cs = slash # slash # cs'"
    by (cases "c # cs" rule: single_line_comment_pattern.cases)
       (auto simp: pattern_def split: if_splits option.splits)
  with pat have m: "m = ''//'' @ takeWhile (\<lambda>c. c \<noteq> newline) cs'"
    and rest: "rest = dropWhile (\<lambda>c. c \<noteq> newline) cs'"
    by (simp_all add: pattern_line)
  have "newline \<notin> set (takeWhile (\<lambda>c. c \<noteq> newline) cs')"
    by (auto dest: set_takeWhileD)
  moreover have "qs = [] \<or> (\<exists>qs'. qs = Kept newline # qs')"
  proof (cases rest)
    case Nil
    with qs show ?thesis by simp
  next
    case (Cons r rs)
    with rest have "r = newline" by (auto dest: dropWhile_head[OF sym])
    with Cons qs show ?thesis by (simp add: pattern_not_slash)
  qed
  ultimately show ?thesis using m by blast
qed

lemma rcc_clean_prefix:
  "\<not> sublist ''//'' pre \<Longrightarrow> \<not> sublist ''/*'' pre \<Longrightarrow> \<not> suffix ''/'' pre \<Longrightarrow>
     remove_csharp_comments (pre @ t) = pre @ remove_csharp_comments t"
  by (simp add: rcc_pieces pieces_clean_prefix comp_def)

lemma rcc_unterminated:
  "\<not> sublist ''*/'' cs \<Longrightarrow> remove_csharp_comments (''/*'' @ cs) = ''/*'' @ remove_csharp_comments cs"
  using pattern_unterminated[of cs] by (simp add: rcc_Cons pattern_not_slash)

lemma rcc_block:
  "\<not> sublist ''*/'' body \<Longrightarrow>
     remove_csharp_comments (''/*'' @ body @ ''*/'' @ rest) = remove_csharp_comments rest"
  using pattern_block[of body rest] by (simp add: rcc_Cons)

lemma rcc_no_opener:
  "\<not> sublist ''//'' t \<Longrightarrow> \<not> sublist ''/*'' t \<Longrightarrow> remove_csharp_comments t = t"
proof (induction t)
  case Nil
  then show ?case by simp
next
  case (Cons c cs)
  then have ih: "remove_csharp_comments cs = cs"
    and np: "\<not> prefix ''//'' (c # cs)" "\<not> prefix ''/*'' (c # cs)"
    by (auto simp: sublist_Cons_right)
  have "pattern (c # cs) = None"
  proof (cases "c = slash")
    case False
    then show ?thesis by (rule pattern_not_slash)
  next
    case True
    with np show ?thesis by (cases cs) (auto simp: pattern_slash_None)
  qed
  with ih show ?case by (simp add: rcc_Cons)
qed


lemma count_list_concat: "count_list (concat xss) x = sum_list (map (\<lambda>xs. count_list xs x) xss)"
  by (induction xss) auto

lemma subseq_concat_pieces: "subseq (concat (map (expand replacer) ps)) (concat (map covered ps))"
proof (induction ps)
  case Nil
  then show ?case by simp
next
  case (Cons p ps)
  have "subseq (expand replacer p) (covered p)"
    by (cases p) (auto simp: replacer_def)
  with Cons show ?case by (auto intro: list_emb_append_mono)
qed

lemma rcc_no_line_marker: "\<not> sublist ''//'' (remove_csharp_comments t)"
proof (induction t rule: pieces.induct)
  case 1
  then show ?case by simp
next
  case (2 c cs)
  show ?case
  proof (cases "pattern (c # cs)")
    case None
    with 2 have ih: "\<not> sublist ''//'' (remove_csharp_comments cs)" by simp
    have "\<not> prefix ''//'' (c # remove_csharp_comments cs)"
    proof (cases "c = slash")
      case False
      then show ?thesis by simp
    next
      case True
      show ?thesis
      proof (cases cs)
        case Nil
        then show ?thesis by simp
      next
        case (Cons d ds)
        with None True have "d \<noteq> slash" by (simp add: pattern_slash_None)
        with Cons show ?thesis by (simp add: rcc_Cons_not_slash)
      qed
    qed
    with ih None show ?thesis by (simp add: rcc_Cons sublist_Cons_right)
  next
    case (Some a)
    with 2 show ?thesis by (cases a) (auto simp: rcc_Cons)
  qed
qed

lemma lazy_close_nonempty: "lazy_close cs = Some (m, rest) \<Longrightarrow> \<exists>x xs. m = x # xs \<and> hd cs = x"
  by (cases cs rule: lazy_close.cases) (auto split: if_splits option.splits)

lemma lazy_close_body:
  "lazy_close cs = Some (m, rest) \<Longrightarrow> \<exists>body. m = body @ ''*/'' \<and> \<not> sublist ''*/'' body"
proof (induction cs arbitrary: m rest rule: lazy_close.induct)
  case (1 a b cs)
  show ?case
  proof (cases "a = star \<and> b = slash")
    case True
    with "1.prems" have "m = [] @ ''*/''" by simp
    then show ?thesis by (metis sublist_Cons_Nil)
  next
    case False
    with "1.prems" obtain m' where m': "lazy_close (b # cs) = Some (m', rest)" and m: "m = a # m'"
      by (auto split: option.splits)
    from "1.IH"[OF False m'] obtain body where body: "m' = body @ ''*/''" "\<not> sublist ''*/'' body"
      by blast
    from lazy_close_nonempty[OF m'] obtain xs where hd: "m' = b # xs" by auto
    have "\<not> prefix ''*/'' (a # body)"
    proof (cases body)
      case Nil
      then show ?thesis by simp
    next
      case (Cons y ys)
      with body hd have "y = b" by simp
      with False Cons show ?thesis by auto
    qed
    with body have "\<not> sublist ''*/'' (a # body)" by (simp add: sublist_Cons_right)
    with m body show ?thesis by (metis append_Cons)
  qed
qed simp_all

lemma pieces_block_head:
  assumes "pieces t = Matched (Multi_line, m) # qs"
  shows "\<exists>body. m = ''/*'' @ body @ ''*/'' \<and> \<not> sublist ''*/'' body"
proof (cases t)
  case Nil
  with assms show ?thesis by simp
next
  case (Cons c cs)
  with assms obtain rest where pat: "pattern (c # cs) = Some ((Multi_line, m), rest)"
    by (auto split: option.splits)
  then obtain cs' m' where "c # cs = slash # star # cs'" "lazy_close cs' = Some (m', rest)"
    "m = ''/*'' @ m'"
    by (cases "c # cs" rule: single_line_comment_pattern.cases)
       (auto simp: pattern_def split: if_splits option.splits prod.splits)
  with lazy_close_body[of cs' m' rest] show ?thesis by auto
qed

section \<open>Basic facts about the driver\<close>

lemma process_file_skip:
  "\<not> endswith filename ''.cs'' \<Longrightarrow> process_file os root_dir output_dir subdir filename s = Inr s"
  by (simp add: process_file_def)

lemma process_file_read_fail:
  "endswith filename ''.cs'' \<Longrightarrow> open_read os (trace s) (os_path_join os subdir filename) = Inl e \<Longrightarrow>
     process_file os root_dir output_dir subdir filename s =
       Inr (s\<lparr>file_count := file_count s + 1,
              trace := trace s @
                [Read (os_path_join os subdir filename) (Inl e),
                 Print (''[ERROR] Failed to read '' @ os_path_join os subdir filename @ '': '' @ message e)]\<rparr>)"
  by (simp add: process_file_def Let_def emit_def print_def)

lemma process_file_unchanged:
  "endswith filename ''.cs'' \<Longrightarrow>
   open_read os (trace s) (os_path_join os subdir filename) = Inr content \<Longrightarrow>
   remove_csharp_comments content = content \<Longrightarrow>
     process_file os root_dir output_dir subdir filename s =
       Inr (s\<lparr>file_count := file_count s + 1,
              trace := trace s @
                [Read (os_path_join os subdir filename) (Inr content),
                 Print (''Processed: '' @ os_path_join os subdir filename)]\<rparr>)"
  by (simp add: process_file_def Let_def emit_def print_def)

lemma process_file_changed:
  "endswith filename ''.cs'' \<Longrightarrow>
   open_read os (trace s) (os_path_join os subdir filename) = Inr content \<Longrightarrow>
   remove_csharp_comments content \<noteq> content \<Longrightarrow>
     process_file os root_dir output_dir subdir filename s =
       (case write_changed os root_dir output_dir (os_path_join os subdir filename)
               (remove_csharp_comments content)
               (s\<lparr>file_count := file_count s + 1,
                  trace := trace s @ [Read (os_path_join os subdir filename) (Inr content)],
                  processed_count := processed_count s + 1\<rparr>) of
          Inl x \<Rightarrow> Inl x
        | Inr s3 \<Rightarrow> Inr (print (''Processed: '' @ os_path_join os subdir filename) s3))"
  by (simp add: process_file_def Let_def emit_def print_def)

text \<open>What a write attempt adds: the write event, and the error line when it failed.\<close>

lemma try_write_eq:
  "try_write os p cleaned s =
     s\<lparr>trace := trace s @
        (case open_write os (trace s) p cleaned of
           None \<Rightarrow> [Write p cleaned None]
         | Some e \<Rightarrow> [Write p cleaned (Some e),
                      Print (''[ERROR] Failed to write '' @ p @ '': '' @ message e)])\<rparr>"
  by (simp add: try_write_def emit_def print_def split: option.splits)

lemma justified_append:
  "justified l (xs @ ys) \<longleftrightarrow> justified l xs \<and> justified (last_content l xs) ys"
  by (induction l xs rule: justified.induct) auto

lemma last_content_append:
  "last_content l (xs @ ys) = last_content (last_content l xs) ys"
  by (induction l xs rule: last_content.induct) auto

lemma run_inv_try_write:
  assumes "run_inv s" "last_content None (trace s) = Some content"
    "cleaned = remove_csharp_comments content" "cleaned \<noteq> content"
  shows "run_inv (try_write os p cleaned s)"
    and "run_inv (print line (try_write os p cleaned s))"
  using assms
  by (auto simp: run_inv_def try_write_eq print_def emit_def justified_append last_content_append
      split: option.splits)

lemma run_inv_process_file:
  assumes "run_inv s"
  shows "run_inv (result_state (process_file os root_dir output_dir subdir filename s))"
proof (cases "endswith filename ''.cs''")
  case False
  with assms show ?thesis by (simp add: process_file_skip)
next
  case True
  let ?fp = "os_path_join os subdir filename"
  show ?thesis
  proof (cases "open_read os (trace s) ?fp")
    case (Inl e)
    with True assms show ?thesis
      by (simp add: process_file_read_fail run_inv_def justified_append)
  next
    case (Inr content)
    show ?thesis
    proof (cases "remove_csharp_comments content = content")
      case same: True
      with True Inr assms show ?thesis
        by (simp add: process_file_unchanged run_inv_def justified_append)
    next
      case diff: False
      let ?s2 = "s\<lparr>file_count := file_count s + 1,
                  trace := trace s @ [Read ?fp (Inr content)],
                  processed_count := processed_count s + 1\<rparr>"
      from assms diff have inv2: "run_inv ?s2"
        by (simp add: run_inv_def justified_append)
      have lc: "last_content None (trace ?s2) = Some content"
        by (simp add: last_content_append)
      have "run_inv (result_state (case write_changed os root_dir output_dir ?fp
               (remove_csharp_comments content) ?s2 of
          Inl x \<Rightarrow> Inl x
        | Inr s3 \<Rightarrow> Inr (print (''Processed: '' @ ?fp) s3)))"
      proof (cases "output_dir = None \<or> output_dir = Some []")
        case True
        then have "write_changed os root_dir output_dir ?fp (remove_csharp_comments content) ?s2 =
            Inr (try_write os ?fp (remove_csharp_comments content) ?s2)"
          by (auto simp: write_changed_def)
        with run_inv_try_write(2)[OF inv2 lc refl diff] show ?thesis by simp
      next
        case False
        then obtain out where out: "output_dir = Some out" "out \<noteq> []" by auto
        let ?op = "os_path_join os out (os_path_relpath os ?fp root_dir)"
        let ?d = "os_path_dirname os ?op"
        show ?thesis
        proof (cases "os_makedirs os (trace ?s2) ?d")
          case None
          let ?s3 = "emit (Makedirs ?d None) ?s2"
          from inv2 lc diff have inv3: "run_inv ?s3"
            by (simp add: run_inv_def emit_def justified_append)
          from lc have lc3: "last_content None (trace ?s3) = Some content"
            by (simp add: emit_def last_content_append)
          from out None have "write_changed os root_dir output_dir ?fp (remove_csharp_comments content) ?s2 =
            Inr (try_write os ?op (remove_csharp_comments content) ?s3)"
            by (simp add: write_changed_def Let_def)
          with run_inv_try_write(2)[OF inv3 lc3 refl diff] show ?thesis by simp
        next
          case (Some e)
          with out have "write_changed os root_dir output_dir ?fp (remove_csharp_comments content) ?s2 =
            Inl (e, emit (Makedirs ?d (Some e)) ?s2)"
            by (simp add: write_changed_def Let_def)
          moreover from inv2 lc diff have "run_inv (emit (Makedirs ?d (Some e)) ?s2)"
            by (simp add: run_inv_def emit_def justified_append)
          ultimately show ?thesis by simp
        qed
      qed
      with True Inr diff show ?thesis by (simp add: process_file_changed)
    qed
  qed
qed

lemma run_inv_process_files:
  "run_inv s \<Longrightarrow> run_inv (result_state (process_files os root_dir output_dir subdir files s))"
proof (induction files arbitrary: s)
  case Nil
  then show ?case by simp
next
  case (Cons f fs)
  from Cons.prems have "run_inv (result_state (process_file os root_dir output_dir subdir f s))"
    by (rule run_inv_process_file)
  with Cons.IH show ?case
    by (cases "process_file os root_dir output_dir subdir f s") auto
qed

lemma run_inv_process_walk:
  "run_inv s \<Longrightarrow> run_inv (result_state (process_walk os root_dir output_dir w s))"
proof (induction w arbitrary: s)
  case Nil
  then show ?case by simp
next
  case (Cons t ts)
  obtain subdir dirs files where t: "t = (subdir, dirs, files)" by (cases t)
  from Cons.prems have "run_inv (result_state (process_files os root_dir output_dir subdir files s))"
    by (rule run_inv_process_files)
  with Cons.IH t show ?case
    by (cases "process_files os root_dir output_dir subdir files s") auto
qed

lemma run_inv_process_directory:
  "run_inv (result_state (process_directory os root_dir output_dir))"
proof -
  have i: "run_inv initial_state" by (simp add: run_inv_def initial_state_def)
  have p: "run_inv (print line s)" if "run_inv s" for line s
    using that by (simp add: run_inv_def print_def emit_def justified_append)
  from i have "run_inv (result_state (process_walk os (os_path_abspath os root_dir) output_dir
      (os_walk os (os_path_abspath os root_dir)) initial_state))"
    by (rule run_inv_process_walk)
  with i p show ?thesis
    by (auto simp: process_directory_def Let_def split: sum.splits)
qed





lemma process_file_count:
  "process_file os root_dir output_dir subdir filename s = Inr s' \<Longrightarrow>
     file_count s' = file_count s + (if endswith filename ''.cs'' then 1 else 0)"
  by (auto simp: process_file_def Let_def print_def emit_def write_changed_def try_write_eq
      split: if_splits sum.splits option.splits)

lemma process_files_count:
  "process_files os root_dir output_dir subdir files s = Inr s' \<Longrightarrow>
     file_count s' = file_count s + int (length (filter (\<lambda>f. endswith f ''.cs'') files))"
proof (induction files arbitrary: s)
  case Nil
  then show ?case by simp
next
  case (Cons f fs)
  then obtain s1 where 1: "process_file os root_dir output_dir subdir f s = Inr s1"
    and 2: "process_files os root_dir output_dir subdir fs s1 = Inr s'"
    by (auto split: sum.splits)
  from process_file_count[OF 1] Cons.IH[OF 2] show ?case by simp
qed

lemma process_walk_count:
  "process_walk os root_dir output_dir w s = Inr s' \<Longrightarrow>
     file_count s' = file_count s +
       int (length (filter (\<lambda>f. endswith f ''.cs'') (concat (map (\<lambda>(subdir, dirs, files). files) w))))"
proof (induction w arbitrary: s)
  case Nil
  then show ?case by simp
next
  case (Cons t ts)
  obtain subdir dirs files where t: "t = (subdir, dirs, files)" by (cases t)
  with Cons.prems obtain s1 where 1: "process_files os root_dir output_dir subdir files s = Inr s1"
    and 2: "process_walk os root_dir output_dir ts s1 = Inr s'"
    by (auto split: sum.splits)
  from process_files_count[OF 1] Cons.IH[OF 2] t show ?case by simp
qed

lemma process_directory_summary:
  assumes "process_directory os root_dir output_dir = Inr s"
    and "os_path_isdir os (os_path_abspath os root_dir)"
  shows "\<exists>s0. process_walk os (os_path_abspath os root_dir) output_dir
            (os_walk os (os_path_abspath os root_dir)) initial_state = Inr s0 \<and>
          file_count s = file_count s0 \<and> processed_count s = processed_count s0 \<and>
          trace s = trace s0 @
            [Print (''Total .cs files found: '' @ str_int (file_count s0)),
             Print (''Files with comments removed: '' @ str_int (processed_count s0))]"
  using assms
  by (auto simp: process_directory_def Let_def print_def emit_def split: sum.splits)

text \<open>The equations that evaluate a concrete run.\<close>

lemmas run_simps = process_directory_def sample_os_def sample_reads_def initial_state_def
  process_file_def endswith_def suffix_Cons emit_def print_def write_changed_def try_write_def
  rcc_pieces pattern_def replacer_def Let_def str_int_def str_nat.simps

section \<open>Properties of the stripper\<close>

text \<open>
  C1. Whenever the scan of a text \<open>t\<close> yields a match of the line-comment group,
  the matched span starts with the marker \<^verbatim>\<open>//\<close> and contains no line feed (the
  line terminator), and what follows it in the scan is either nothing (end of text) or
  the kept line feed. The
  span lies in \<open>t\<close> between what the pieces before and after it cover, and the output is
  what is kept of those pieces, so the line feed that ends the comment is in the output.
  Hence a text in which no block comment is matched has as many line feeds after
  stripping as before. The text \<^verbatim>\<open>a(); // note\nb();\<close> is stripped to
  \<^verbatim>\<open>a(); \nb();\<close>.
\<close>

theorem line_comment_span:
  "(\<forall>ps m qs. pieces t = ps @ Matched (Single_line, m) # qs \<longrightarrow>
      (\<exists>body. m = ''//'' @ body \<and> newline \<notin> set body) \<and>
      (qs = [] \<or> (\<exists>qs'. qs = Kept newline # qs')) \<and>
      t = concat (map covered ps) @ m @ concat (map covered qs) \<and>
      remove_csharp_comments t =
        concat (map (expand replacer) ps) @ concat (map (expand replacer) qs)) \<and>
   ((\<nexists>m. Matched (Multi_line, m) \<in> set (pieces t)) \<longrightarrow>
      count_list (remove_csharp_comments t) newline = count_list t newline) \<and>
   remove_csharp_comments (''a(); // note'' @ [newline] @ ''b();'') =
     ''a(); '' @ [newline] @ ''b();''"
proof -
  have span: "(\<exists>body. m = ''//'' @ body \<and> newline \<notin> set body) \<and>
      (qs = [] \<or> (\<exists>qs'. qs = Kept newline # qs')) \<and>
      t = concat (map covered ps) @ m @ concat (map covered qs) \<and>
      remove_csharp_comments t =
        concat (map (expand replacer) ps) @ concat (map (expand replacer) qs)"
    if dec: "pieces t = ps @ Matched (Single_line, m) # qs" for ps m qs
  proof -
    from pieces_split[OF dec] obtain t2 where "pieces t2 = Matched (Single_line, m) # qs"
      by blast
    then have "\<exists>body. m = ''//'' @ body \<and> newline \<notin> set body \<and>
        (qs = [] \<or> (\<exists>qs'. qs = Kept newline # qs'))"
      by (rule pieces_line_head)
    moreover have "t = concat (map covered ps) @ m @ concat (map covered qs)"
      using pieces_covered[of t] dec by simp
    moreover have "remove_csharp_comments t =
        concat (map (expand replacer) ps) @ concat (map (expand replacer) qs)"
      using dec by (simp add: rcc_pieces replacer_def)
    ultimately show ?thesis by blast
  qed
  have count: "count_list (remove_csharp_comments t) newline = count_list t newline"
    if nb: "\<nexists>m. Matched (Multi_line, m) \<in> set (pieces t)"
  proof -
    have pc: "count_list (expand replacer p) newline = count_list (covered p) newline"
      if p: "p \<in> set (pieces t)" for p
    proof (cases p)
      case (Kept c)
      then show ?thesis by simp
    next
      case (Matched mt)
      obtain g m where mt: "mt = (g, m)" by (cases mt)
      with nb p Matched have g: "g = Single_line" by (cases g) auto
      from p obtain ps qs where "pieces t = ps @ p # qs"
        by (auto dest: split_list)
      with Matched mt g span[of ps m qs] have "newline \<notin> set m" by auto
      with Matched mt show ?thesis by (simp add: replacer_def)
    qed
    have eq: "map (\<lambda>p. count_list (expand replacer p) newline) (pieces t) =
        map (\<lambda>p. count_list (covered p) newline) (pieces t)"
      by (rule map_cong[OF refl]) (rule pc)
    have "count_list (concat (map (expand replacer) (pieces t))) newline =
        count_list (concat (map covered (pieces t))) newline"
      by (simp only: count_list_concat map_map comp_def eq)
    then show ?thesis by (simp add: rcc_pieces pieces_covered)
  qed
  have ex: "remove_csharp_comments (''a(); // note'' @ [newline] @ ''b();'') =
     ''a(); '' @ [newline] @ ''b();''"
    by (simp add: rcc_pieces replacer_def pattern_def)
  from span count ex show ?thesis by blast
qed

theorem line_comment_span_witness:
  "pieces (''a(); // note'' @ [newline] @ ''b();'') =
     map Kept ''a(); '' @ Matched (Single_line, ''// note'') # map Kept (newline # ''b();'') \<and>
   (\<nexists>m. Matched (Multi_line, m) \<in> set (pieces (''a(); // note'' @ [newline] @ ''b();''))) \<and>
   newline \<notin> set '' note'' \<and>
   remove_csharp_comments (''a(); // note'' @ [newline] @ ''b();'') = ''a(); '' @ newline # ''b();'' \<and>
   count_list (remove_csharp_comments (''a(); // note'' @ [newline] @ ''b();'')) newline =
     count_list (''a(); // note'' @ [newline] @ ''b();'') newline"
proof -
  have p: "pieces (''a(); // note'' @ [newline] @ ''b();'') =
     map Kept ''a(); '' @ Matched (Single_line, ''// note'') # map Kept (newline # ''b();'')"
    by (simp add: pattern_def)
  have nb: "\<nexists>m. Matched (Multi_line, m) \<in> set (pieces (''a(); // note'' @ [newline] @ ''b();''))"
    unfolding p by simp
  note inst = line_comment_span[of "''a(); // note'' @ [newline] @ ''b();''"]
  from inst have "count_list (remove_csharp_comments (''a(); // note'' @ [newline] @ ''b();'')) newline =
     count_list (''a(); // note'' @ [newline] @ ''b();'') newline"
    using nb by blast
  moreover from inst p have "remove_csharp_comments (''a(); // note'' @ [newline] @ ''b();'') =
      concat (map (expand replacer) (map Kept ''a(); '')) @
      concat (map (expand replacer) (map Kept (newline # ''b();'')))"
    by blast
  then have "remove_csharp_comments (''a(); // note'' @ [newline] @ ''b();'') = ''a(); '' @ newline # ''b();''"
    by simp
  ultimately show ?thesis using p nb by simp
qed

text \<open>
  C2. The stripper is idempotent: stripping an already stripped text changes nothing,
  \<open>remove_csharp_comments (remove_csharp_comments t) = remove_csharp_comments t\<close>
  for every text \<open>t\<close>.
\<close>

theorem remove_csharp_comments_idempotent: "remove_csharp_comments (remove_csharp_comments t) = remove_csharp_comments t"
proof (induction t rule: pieces.induct)
  case 1
  then show ?case by simp
next
  case (2 c cs)
  show ?case
  proof (cases "pattern (c # cs)")
    case None
    with 2 have ih: "remove_csharp_comments (remove_csharp_comments cs) = remove_csharp_comments cs"
      by simp
    from None have "pattern (c # remove_csharp_comments cs) = None"
      by (rule pattern_rcc_None)
    with None ih show ?thesis
      by (simp add: rcc_Cons)
  next
    case (Some a)
    with 2 show ?thesis by (cases a) (auto simp: rcc_Cons)
  qed
qed




text \<open>
  C4. The block-comment group matches from \<^verbatim>\<open>/*\<close> to the first following
  \<^verbatim>\<open>*/\<close>: every match of the group that the scan of a text yields is an opening
  marker, a body in which no closing marker occurs, and the closing marker; and a body
  without closing marker, followed by the closing marker, is matched up to that marker
  whatever comes behind it. Two block comments with text
  without comment markers between them are two separate matches, and the text between
  them is kept. The text \<^verbatim>\<open>/* a */ code() /* b */\<close> is stripped to
  \<^verbatim>\<open> code() \<close>.
\<close>

theorem block_comment_shortest_match:
  "(\<forall>ps m qs. pieces t = ps @ Matched (Multi_line, m) # qs \<longrightarrow>
      (\<exists>body. m = ''/*'' @ body @ ''*/'' \<and> \<not> sublist ''*/'' body)) \<and>
   (\<not> sublist ''*/'' body \<longrightarrow>
      multi_line_comment_pattern (''/*'' @ body @ ''*/'' @ rest) = Some (''/*'' @ body @ ''*/'', rest) \<and>
      pieces (''/*'' @ body @ ''*/'' @ rest) = Matched (Multi_line, ''/*'' @ body @ ''*/'') # pieces rest) \<and>
   (\<not> sublist ''*/'' body \<and> \<not> sublist ''*/'' body' \<and>
    \<not> sublist ''//'' mid \<and> \<not> sublist ''/*'' mid \<and> \<not> suffix ''/'' mid \<longrightarrow>
      pieces (''/*'' @ body @ ''*/'' @ mid @ ''/*'' @ body' @ ''*/'' @ rest) =
        Matched (Multi_line, ''/*'' @ body @ ''*/'') # map Kept mid @
        Matched (Multi_line, ''/*'' @ body' @ ''*/'') # pieces rest \<and>
      remove_csharp_comments (''/*'' @ body @ ''*/'' @ mid @ ''/*'' @ body' @ ''*/'' @ rest) =
        mid @ remove_csharp_comments rest) \<and>
   remove_csharp_comments ''/* a */ code() /* b */'' = '' code() ''"
proof -
  have g: "\<exists>body. m = ''/*'' @ body @ ''*/'' \<and> \<not> sublist ''*/'' body"
    if dec: "pieces t = ps @ Matched (Multi_line, m) # qs" for ps m qs
  proof -
    from pieces_split[OF dec] obtain t2 where "pieces t2 = Matched (Multi_line, m) # qs"
      by blast
    then show ?thesis by (rule pieces_block_head)
  qed
  have one: "pieces (''/*'' @ b @ ''*/'' @ r) = Matched (Multi_line, ''/*'' @ b @ ''*/'') # pieces r"
    if "\<not> sublist ''*/'' b" for b r
    using pattern_block[OF that, of r] by simp
  have a: "multi_line_comment_pattern (''/*'' @ body @ ''*/'' @ rest) = Some (''/*'' @ body @ ''*/'', rest)"
    if "\<not> sublist ''*/'' body"
    using lazy_close_first[OF that, of rest] by simp
  have b: "pieces (''/*'' @ body @ ''*/'' @ mid @ ''/*'' @ body' @ ''*/'' @ rest) =
        Matched (Multi_line, ''/*'' @ body @ ''*/'') # map Kept mid @
        Matched (Multi_line, ''/*'' @ body' @ ''*/'') # pieces rest"
    if "\<not> sublist ''*/'' body" "\<not> sublist ''*/'' body'"
       "\<not> sublist ''//'' mid" "\<not> sublist ''/*'' mid" "\<not> suffix ''/'' mid"
    using one[OF that(1), of "mid @ ''/*'' @ body' @ ''*/'' @ rest"]
      pieces_clean_prefix[OF that(3,4,5), of "''/*'' @ body' @ ''*/'' @ rest"]
      one[OF that(2), of rest] by simp
  have c: "remove_csharp_comments (''/*'' @ body @ ''*/'' @ mid @ ''/*'' @ body' @ ''*/'' @ rest) =
        mid @ remove_csharp_comments rest"
    if "\<not> sublist ''*/'' body" "\<not> sublist ''*/'' body'"
       "\<not> sublist ''//'' mid" "\<not> sublist ''/*'' mid" "\<not> suffix ''/'' mid"
    using rcc_block[OF that(1), of "mid @ ''/*'' @ body' @ ''*/'' @ rest"]
      rcc_clean_prefix[OF that(3,4,5), of "''/*'' @ body' @ ''*/'' @ rest"]
      rcc_block[OF that(2), of rest] by simp
  have ex: "remove_csharp_comments ''/* a */ code() /* b */'' = '' code() ''"
    by (simp add: rcc_pieces replacer_def pattern_def)
  from g one[of body rest] a b c ex show ?thesis by blast
qed

theorem block_comment_shortest_match_witness:
  "pieces ''/* a */ code() /* b */'' =
     [] @ Matched (Multi_line, ''/* a */'') # map Kept '' code() '' @ [Matched (Multi_line, ''/* b */'')] \<and>
   (\<exists>body. ''/* a */'' = ''/*'' @ body @ ''*/'' \<and> \<not> sublist ''*/'' body) \<and>
   \<not> sublist ''*/'' '' a '' \<and> \<not> sublist ''*/'' '' b '' \<and>
   \<not> sublist ''//'' '' code() '' \<and> \<not> sublist ''/*'' '' code() '' \<and> \<not> suffix ''/'' '' code() '' \<and>
   multi_line_comment_pattern (''/*'' @ '' a '' @ ''*/'' @ '' code() /* b */'') =
     Some (''/*'' @ '' a '' @ ''*/'', '' code() /* b */'') \<and>
   pieces (''/*'' @ '' a '' @ ''*/'' @ '' code() '' @ ''/*'' @ '' b '' @ ''*/'' @ []) =
     Matched (Multi_line, ''/*'' @ '' a '' @ ''*/'') # map Kept '' code() '' @
     Matched (Multi_line, ''/*'' @ '' b '' @ ''*/'') # pieces [] \<and>
   remove_csharp_comments (''/*'' @ '' a '' @ ''*/'' @ '' code() '' @ ''/*'' @ '' b '' @ ''*/'' @ []) =
     '' code() '' @ remove_csharp_comments []"
proof -
  have p: "pieces ''/* a */ code() /* b */'' =
     [] @ Matched (Multi_line, ''/* a */'') # map Kept '' code() '' @ [Matched (Multi_line, ''/* b */'')]"
    by (simp add: pattern_def)
  have h: "\<not> sublist ''*/'' '' a ''" "\<not> sublist ''*/'' '' b ''"
   "\<not> sublist ''//'' '' code() ''" "\<not> sublist ''/*'' '' code() ''" "\<not> suffix ''/'' '' code() ''"
    by (simp_all add: sublist_Cons_right suffix_Cons)
  from p block_comment_shortest_match[of "''/* a */ code() /* b */''"]
  have 0: "\<exists>body. ''/* a */'' = ''/*'' @ body @ ''*/'' \<and> \<not> sublist ''*/'' body"
    by blast
  from h block_comment_shortest_match[of t "'' a ''" "'' code() /* b */''" for t]
  have 1: "multi_line_comment_pattern (''/*'' @ '' a '' @ ''*/'' @ '' code() /* b */'') =
     Some (''/*'' @ '' a '' @ ''*/'', '' code() /* b */'')"
    by blast
  from h block_comment_shortest_match[of t "'' a ''" "[]" "'' b ''" "'' code() ''" for t]
  have 2: "pieces (''/*'' @ '' a '' @ ''*/'' @ '' code() '' @ ''/*'' @ '' b '' @ ''*/'' @ []) =
     Matched (Multi_line, ''/*'' @ '' a '' @ ''*/'') # map Kept '' code() '' @
     Matched (Multi_line, ''/*'' @ '' b '' @ ''*/'') # pieces [] \<and>
   remove_csharp_comments (''/*'' @ '' a '' @ ''*/'' @ '' code() '' @ ''/*'' @ '' b '' @ ''*/'' @ []) =
     '' code() '' @ remove_csharp_comments []"
    by blast
  from p 0 h 1 2 show ?thesis by blast
qed

text \<open>
  C5. A text with no occurrence of \<^verbatim>\<open>//\<close> and no occurrence of \<^verbatim>\<open>/*\<close>
  is returned as it is. For every text, the pieces of the scan cover the text from left
  to right; the output is the concatenation of what is kept of each piece, which is the
  character itself for a character outside a match and nothing for a match. So the
  output consists of the characters outside the matched spans, unchanged and in their
  order; in particular it is a subsequence of the input.
\<close>

theorem non_comment_text_preserved:
  "(\<not> sublist ''//'' t \<and> \<not> sublist ''/*'' t \<longrightarrow> remove_csharp_comments t = t) \<and>
   concat (map covered (pieces t)) = t \<and>
   remove_csharp_comments t = concat (map (expand replacer) (pieces t)) \<and>
   (\<forall>p \<in> set (pieces t). expand replacer p = (case p of Kept c \<Rightarrow> [c] | Matched mt \<Rightarrow> [])) \<and>
   subseq (remove_csharp_comments t) t"
proof -
  have a: "remove_csharp_comments t = t" if "\<not> sublist ''//'' t" "\<not> sublist ''/*'' t"
    using that by (rule rcc_no_opener)
  have b: "subseq (remove_csharp_comments t) t"
    using subseq_concat_pieces[of "pieces t"] by (simp add: rcc_pieces pieces_covered)
  have c: "expand replacer p = (case p of Kept c \<Rightarrow> [c] | Matched mt \<Rightarrow> [])" for p
    by (cases p) (simp_all add: replacer_def)
  from a b c pieces_covered[of t] rcc_pieces[of t] show ?thesis
    by blast
qed

theorem non_comment_text_preserved_witness:
  "\<not> sublist ''//'' ''x = a / b * c;'' \<and> \<not> sublist ''/*'' ''x = a / b * c;'' \<and>
   remove_csharp_comments ''x = a / b * c;'' = ''x = a / b * c;'' \<and>
   pieces ''y /* c */ z'' = [Kept CHR ''y'', Kept CHR '' '', Matched (Multi_line, ''/* c */''),
     Kept CHR '' '', Kept CHR ''z''] \<and>
   expand replacer (Matched (Multi_line, ''/* c */'')) = [] \<and>
   expand replacer (Kept CHR ''y'') = ''y''"
proof -
  have h: "\<not> sublist ''//'' ''x = a / b * c;''" "\<not> sublist ''/*'' ''x = a / b * c;''"
    by (simp_all add: sublist_Cons_right)
  with non_comment_text_preserved[of "''x = a / b * c;''"]
  have 1: "remove_csharp_comments ''x = a / b * c;'' = ''x = a / b * c;''"
    by blast
  have p: "pieces ''y /* c */ z'' = [Kept CHR ''y'', Kept CHR '' '', Matched (Multi_line, ''/* c */''),
     Kept CHR '' '', Kept CHR ''z'']"
    by (simp add: pattern_def)
  from non_comment_text_preserved[of "''y /* c */ z''"]
  have "\<forall>p \<in> set (pieces ''y /* c */ z''). expand replacer p = (case p of Kept c \<Rightarrow> [c] | Matched mt \<Rightarrow> [])"
    by blast
  then have 2: "expand replacer (Matched (Multi_line, ''/* c */'')) = []"
    "expand replacer (Kept CHR ''y'') = ''y''"
    unfolding p by simp_all
  from h 1 p 2 show ?thesis by blast
qed

text \<open>
  C10. An opening marker \<^verbatim>\<open>/*\<close> that is never closed does not protect the text
  behind it: the rest is stripped as any text is, and no \<^verbatim>\<open>//\<close> is left in what
  comes out of it. In particular a line comment that follows, after text without comment
  markers, is matched up to the end of its line and removed. The text
  \<^verbatim>\<open>/* open\n// inner\<close> is stripped to \<^verbatim>\<open>/* open\n\<close>.
\<close>

theorem unterminated_block_no_protection:
  "(\<not> sublist ''*/'' cs \<longrightarrow>
      remove_csharp_comments (''/*'' @ cs) = ''/*'' @ remove_csharp_comments cs \<and>
      \<not> sublist ''//'' (remove_csharp_comments cs)) \<and>
   (\<not> sublist ''*/'' (mid @ ''//'' @ body @ tail) \<and>
    \<not> sublist ''//'' mid \<and> \<not> sublist ''/*'' mid \<and> \<not> suffix ''/'' mid \<and>
    newline \<notin> set body \<and> (tail = [] \<or> prefix [newline] tail) \<longrightarrow>
      pieces (''/*'' @ mid @ ''//'' @ body @ tail) =
        Kept slash # Kept star # map Kept mid @ Matched (Single_line, ''//'' @ body) # pieces tail \<and>
      remove_csharp_comments (''/*'' @ mid @ ''//'' @ body @ tail) =
        ''/*'' @ mid @ remove_csharp_comments tail) \<and>
   remove_csharp_comments (''/* open'' @ [newline] @ ''// inner'') = ''/* open'' @ [newline]"
proof -
  have g: "remove_csharp_comments (''/*'' @ cs) = ''/*'' @ remove_csharp_comments cs \<and>
      \<not> sublist ''//'' (remove_csharp_comments cs)"
    if "\<not> sublist ''*/'' cs"
    using rcc_unterminated[OF that] rcc_no_line_marker[of cs] by blast
  have a: "pieces (''/*'' @ mid @ ''//'' @ body @ tail) =
        Kept slash # Kept star # map Kept mid @ Matched (Single_line, ''//'' @ body) # pieces tail \<and>
      remove_csharp_comments (''/*'' @ mid @ ''//'' @ body @ tail) =
        ''/*'' @ mid @ remove_csharp_comments tail"
    if nc: "\<not> sublist ''*/'' (mid @ ''//'' @ body @ tail)"
      and m: "\<not> sublist ''//'' mid" "\<not> sublist ''/*'' mid" "\<not> suffix ''/'' mid"
      and b: "newline \<notin> set body" and tl: "(tail = [] \<or> prefix [newline] tail)"
  proof -
    from tl have tl': "tail = [] \<or> hd tail = newline" by (cases tail) auto
    have d: "dropWhile (\<lambda>c. c \<noteq> newline) (body @ tail) = tail"
      using b tl' by (cases tail) (auto simp: dropWhile_append3 dropWhile_append)
    have t: "takeWhile (\<lambda>c. c \<noteq> newline) (body @ tail) = body"
      using b tl' by (cases tail) (auto simp: takeWhile_tail takeWhile_append)
    have 1: "pieces (''/*'' @ mid @ ''//'' @ body @ tail) =
        Kept slash # Kept star # pieces (mid @ ''//'' @ body @ tail)"
      using pattern_unterminated[OF nc]
      by (cases "mid @ ''//'' @ body @ tail") (simp_all add: pattern_not_slash)
    have 2: "pieces (mid @ ''//'' @ body @ tail) = map Kept mid @ pieces (''//'' @ body @ tail)"
      using m by (rule pieces_clean_prefix)
    have 3: "pieces (''//'' @ body @ tail) = Matched (Single_line, ''//'' @ body) # pieces tail"
      by (simp add: pattern_line d t)
    have p: "pieces (''/*'' @ mid @ ''//'' @ body @ tail) =
        Kept slash # Kept star # map Kept mid @ Matched (Single_line, ''//'' @ body) # pieces tail"
      by (simp only: 1 2 3)
    have "remove_csharp_comments (''/*'' @ mid @ ''//'' @ body @ tail) =
        ''/*'' @ mid @ remove_csharp_comments tail"
      unfolding rcc_pieces p by (simp add: replacer_def comp_def)
    with p show ?thesis by blast
  qed
  have ex: "remove_csharp_comments (''/* open'' @ [newline] @ ''// inner'') = ''/* open'' @ [newline]"
    by (simp add: rcc_pieces replacer_def pattern_def)
  from g a ex show ?thesis by blast
qed

theorem unterminated_block_no_protection_witness:
  "\<not> sublist ''*/'' (('' open'' @ [newline]) @ ''//'' @ '' inner'' @ []) \<and>
   \<not> sublist ''//'' ('' open'' @ [newline]) \<and> \<not> sublist ''/*'' ('' open'' @ [newline]) \<and>
   \<not> suffix ''/'' ('' open'' @ [newline]) \<and> newline \<notin> set '' inner'' \<and>
   ([] = ([] :: string) \<or> prefix [newline] []) \<and>
   remove_csharp_comments (''/*'' @ ('' open'' @ [newline]) @ ''//'' @ '' inner'' @ []) =
     ''/*'' @ ('' open'' @ [newline]) @ remove_csharp_comments [] \<and>
   remove_csharp_comments (''/*'' @ ('' open'' @ [newline]) @ ''//'' @ '' inner'' @ []) =
     ''/*'' @ remove_csharp_comments (('' open'' @ [newline]) @ ''//'' @ '' inner'' @ []) \<and>
   \<not> sublist ''//'' (remove_csharp_comments (('' open'' @ [newline]) @ ''//'' @ '' inner'' @ []))"
proof -
  have h: "\<not> sublist ''*/'' (('' open'' @ [newline]) @ ''//'' @ '' inner'' @ [])"
   "\<not> sublist ''//'' ('' open'' @ [newline])" "\<not> sublist ''/*'' ('' open'' @ [newline])"
   "\<not> suffix ''/'' ('' open'' @ [newline])" "newline \<notin> set '' inner''"
   "([] = ([] :: string) \<or> prefix [newline] [])"
    by (simp_all add: sublist_Cons_right suffix_Cons)
  with unterminated_block_no_protection[of "('' open'' @ [newline]) @ ''//'' @ '' inner'' @ []"
      "'' open'' @ [newline]" "'' inner''" "[]"]
  have "remove_csharp_comments (''/*'' @ ('' open'' @ [newline]) @ ''//'' @ '' inner'' @ []) =
     ''/*'' @ ('' open'' @ [newline]) @ remove_csharp_comments [] \<and>
   remove_csharp_comments (''/*'' @ ('' open'' @ [newline]) @ ''//'' @ '' inner'' @ []) =
     ''/*'' @ remove_csharp_comments (('' open'' @ [newline]) @ ''//'' @ '' inner'' @ []) \<and>
   \<not> sublist ''//'' (remove_csharp_comments (('' open'' @ [newline]) @ ''//'' @ '' inner'' @ []))"
    by blast
  with h show ?thesis by blast
qed

section \<open>Properties of the driver\<close>



text \<open>
  C7. Not every failure while a file is processed is caught. In mirror mode
  \<^verbatim>\<open>os.makedirs\<close> is called outside the \<^verbatim>\<open>try\<close> blocks: when it fails for the
  first changed file, the exception leaves \<^verbatim>\<open>process_directory\<close>; the files that
  remain (\<^verbatim>\<open>b.cs\<close> here) are not processed and no summary line is printed.
\<close>

theorem makedirs_failure_escapes:
  "process_directory
     (sample_os [''a.cs'', ''b.cs''] sample_reads (\<lambda>d. Some (Exception ''Permission denied'')) (\<lambda>p. None))
     ''/R'' (Some ''/O'') =
   Inl (Exception ''Permission denied'',
        \<lparr>file_count = 1, processed_count = 1,
         trace = [Read ''/R/a.cs'' (Inr ''x(); // end''),
                  Makedirs ''/O'' (Some (Exception ''Permission denied''))]\<rparr>)"
  by (simp add: run_simps)


text \<open>
  C8. A file with the suffix whose read fails is counted all the same: the loop body
  increments the counter of scanned files before it reads, prints the error and goes on
  to the next file. In every run that prints its summary, the count it reports is the
  number of file names with the suffix \<^verbatim>\<open>.cs\<close> that the walk yielded, which is
  also the number of reads the run attempted, the failed ones included.
\<close>

theorem scanned_count_includes_unreadable:
  "(endswith filename ''.cs'' \<and>
    open_read os (trace s) (os_path_join os subdir filename) = Inl e \<longrightarrow>
      process_file os root_dir output_dir subdir filename s =
        Inr (s\<lparr>file_count := file_count s + 1,
               trace := trace s @
                 [Read (os_path_join os subdir filename) (Inl e),
                  Print (''[ERROR] Failed to read '' @ os_path_join os subdir filename @ '': '' @
                         message e)]\<rparr>)) \<and>
   (process_directory os root_dir output_dir = Inr s' \<and>
    os_path_isdir os (os_path_abspath os root_dir) \<longrightarrow>
      file_count s' =
        int (length (filter (\<lambda>f. endswith f ''.cs'')
          (concat (map (\<lambda>(subdir, dirs, files). files) (os_walk os (os_path_abspath os root_dir)))))) \<and>
      file_count s' = int (length (filter is_Read (trace s'))) \<and>
      (\<exists>tr. trace s' = tr @
         [Print (''Total .cs files found: '' @ str_int (file_count s')),
          Print (''Files with comments removed: '' @ str_int (processed_count s'))]))"
proof (intro conjI impI)
  assume "endswith filename ''.cs'' \<and>
    open_read os (trace s) (os_path_join os subdir filename) = Inl e"
  then show "process_file os root_dir output_dir subdir filename s =
        Inr (s\<lparr>file_count := file_count s + 1,
               trace := trace s @
                 [Read (os_path_join os subdir filename) (Inl e),
                  Print (''[ERROR] Failed to read '' @ os_path_join os subdir filename @ '': '' @
                         message e)]\<rparr>)"
    by (simp add: process_file_read_fail)
next
  assume a: "process_directory os root_dir output_dir = Inr s' \<and>
    os_path_isdir os (os_path_abspath os root_dir)"
  then obtain s0 where w: "process_walk os (os_path_abspath os root_dir) output_dir
            (os_walk os (os_path_abspath os root_dir)) initial_state = Inr s0"
    and fc: "file_count s' = file_count s0" and pc: "processed_count s' = processed_count s0"
    and tr: "trace s' = trace s0 @
            [Print (''Total .cs files found: '' @ str_int (file_count s0)),
             Print (''Files with comments removed: '' @ str_int (processed_count s0))]"
    using process_directory_summary[of os root_dir output_dir s'] by blast
  from process_walk_count[OF w] fc
  show "file_count s' =
        int (length (filter (\<lambda>f. endswith f ''.cs'')
          (concat (map (\<lambda>(subdir, dirs, files). files) (os_walk os (os_path_abspath os root_dir))))))"
    by (simp add: initial_state_def)
  from a run_inv_process_directory[of os root_dir output_dir]
  show "file_count s' = int (length (filter is_Read (trace s')))"
    by (simp add: run_inv_def)
  from tr fc pc
  show "\<exists>tr. trace s' = tr @
         [Print (''Total .cs files found: '' @ str_int (file_count s')),
          Print (''Files with comments removed: '' @ str_int (processed_count s'))]"
    by simp
qed

theorem scanned_count_includes_unreadable_witness:
  "endswith ''c.cs'' ''.cs'' \<and>
   open_read (sample_os [''a.cs'', ''c.cs'', ''n.txt''] sample_reads (\<lambda>d. None) (\<lambda>p. None))
     (trace initial_state) ''/R/c.cs'' = Inl (Exception ''Permission denied'') \<and>
   process_file (sample_os [''a.cs'', ''c.cs'', ''n.txt''] sample_reads (\<lambda>d. None) (\<lambda>p. None))
     ''/R'' None ''/R'' ''c.cs'' initial_state =
     Inr \<lparr>file_count = 1, processed_count = 0,
          trace = [Read ''/R/c.cs'' (Inl (Exception ''Permission denied'')),
                   Print ''[ERROR] Failed to read /R/c.cs: Permission denied'']\<rparr> \<and>
   process_directory (sample_os [''a.cs'', ''c.cs'', ''n.txt''] sample_reads (\<lambda>d. None) (\<lambda>p. None))
     ''/R'' None =
     Inr \<lparr>file_count = 2, processed_count = 1,
          trace = [Read ''/R/a.cs'' (Inr ''x(); // end''), Write ''/R/a.cs'' ''x(); '' None,
                   Print ''Processed: /R/a.cs'',
                   Read ''/R/c.cs'' (Inl (Exception ''Permission denied'')),
                   Print ''[ERROR] Failed to read /R/c.cs: Permission denied'',
                   Print ''Total .cs files found: 2'',
                   Print ''Files with comments removed: 1'']\<rparr> \<and>
   os_path_isdir (sample_os [''a.cs'', ''c.cs'', ''n.txt''] sample_reads (\<lambda>d. None) (\<lambda>p. None)) ''/R'' \<and>
   (2::int) = int (length (filter (\<lambda>f. endswith f ''.cs'') [''a.cs'', ''c.cs'', ''n.txt'']))"
proof -
  let ?os = "sample_os [''a.cs'', ''c.cs'', ''n.txt''] sample_reads (\<lambda>d. None) (\<lambda>p. None)"
  let ?s = "\<lparr>file_count = 2, processed_count = 1,
          trace = [Read ''/R/a.cs'' (Inr ''x(); // end''), Write ''/R/a.cs'' ''x(); '' None,
                   Print ''Processed: /R/a.cs'',
                   Read ''/R/c.cs'' (Inl (Exception ''Permission denied'')),
                   Print ''[ERROR] Failed to read /R/c.cs: Permission denied'',
                   Print ''Total .cs files found: 2'',
                   Print ''Files with comments removed: 1'']\<rparr>"
  have h1: "endswith ''c.cs'' ''.cs''"
    by (simp add: endswith_def suffix_Cons)
  have h2: "open_read ?os (trace initial_state) (os_path_join ?os ''/R'' ''c.cs'') =
      Inl (Exception ''Permission denied'')"
    by (simp add: sample_os_def sample_reads_def)
  have jn: "os_path_join ?os ''/R'' ''c.cs'' = ''/R/c.cs''"
    by (simp add: sample_os_def)
  have h3: "process_directory ?os ''/R'' None = Inr ?s"
    by (simp add: run_simps)
  have h4: "os_path_isdir ?os (os_path_abspath ?os ''/R'')"
    by (simp add: sample_os_def)
  have wk: "os_walk ?os (os_path_abspath ?os ''/R'') = [(''/R'', [], [''a.cs'', ''c.cs'', ''n.txt''])]"
    by (simp add: sample_os_def)
  note inst = scanned_count_includes_unreadable[of "''c.cs''" ?os initial_state "''/R''"
      "Exception ''Permission denied''" "''/R''" None ?s]
  from inst h1 h2 have "process_file ?os ''/R'' None ''/R'' ''c.cs'' initial_state =
        Inr (initial_state\<lparr>file_count := file_count initial_state + 1,
               trace := trace initial_state @
                 [Read (os_path_join ?os ''/R'' ''c.cs'') (Inl (Exception ''Permission denied'')),
                  Print (''[ERROR] Failed to read '' @ os_path_join ?os ''/R'' ''c.cs'' @ '': '' @
                         message (Exception ''Permission denied''))]\<rparr>)"
    by blast
  then have 1: "process_file ?os ''/R'' None ''/R'' ''c.cs'' initial_state =
     Inr \<lparr>file_count = 1, processed_count = 0,
          trace = [Read ''/R/c.cs'' (Inl (Exception ''Permission denied'')),
                   Print ''[ERROR] Failed to read /R/c.cs: Permission denied'']\<rparr>"
    by (simp add: jn initial_state_def)
  from inst h3 h4 have "file_count ?s =
        int (length (filter (\<lambda>f. endswith f ''.cs'')
          (concat (map (\<lambda>(subdir, dirs, files). files) (os_walk ?os (os_path_abspath ?os ''/R''))))))"
    by blast
  then have 2: "(2::int) = int (length (filter (\<lambda>f. endswith f ''.cs'') [''a.cs'', ''c.cs'', ''n.txt'']))"
    by (simp add: wk)
  from h4 have h4': "os_path_isdir ?os ''/R''" by (simp add: sample_os_def)
  from h1 h2 1 h3 h4' 2 show ?thesis
    by (simp only: jn simp_thms)
qed


text \<open>
  C9. The counter of changed files is incremented before any write is attempted. For a
  file whose content the stripper changes and whose write then fails, in place as well
  as in mirror mode (behind a successful \<^verbatim>\<open>makedirs\<close>), the loop body still returns
  with the counter incremented; the trace holds the failed write, its error line and the
  progress line. In every run that prints its summary, the count it reports is the
  number of reads whose content the stripper changes, whatever became of the writes.
\<close>

theorem changed_count_precedes_write:
  "(endswith filename ''.cs'' \<and> fp = os_path_join os subdir filename \<and>
    open_read os (trace s) fp = Inr content \<and>
    remove_csharp_comments content \<noteq> content \<and>
    (output_dir = None \<or> output_dir = Some []) \<and>
    open_write os (trace s @ [Read fp (Inr content)]) fp (remove_csharp_comments content) = Some e \<longrightarrow>
      process_file os root_dir output_dir subdir filename s =
        Inr (s\<lparr>file_count := file_count s + 1,
               processed_count := processed_count s + 1,
               trace := trace s @
                 [Read fp (Inr content),
                  Write fp (remove_csharp_comments content) (Some e),
                  Print (''[ERROR] Failed to write '' @ fp @ '': '' @ message e),
                  Print (''Processed: '' @ fp)]\<rparr>)) \<and>
   (endswith filename ''.cs'' \<and> fp = os_path_join os subdir filename \<and>
    open_read os (trace s) fp = Inr content \<and>
    remove_csharp_comments content \<noteq> content \<and>
    output_dir = Some out \<and> out \<noteq> [] \<and>
    out_path = os_path_join os out (os_path_relpath os fp root_dir) \<and>
    os_makedirs os (trace s @ [Read fp (Inr content)]) (os_path_dirname os out_path) = None \<and>
    open_write os (trace s @ [Read fp (Inr content), Makedirs (os_path_dirname os out_path) None])
      out_path (remove_csharp_comments content) = Some e \<longrightarrow>
      process_file os root_dir output_dir subdir filename s =
        Inr (s\<lparr>file_count := file_count s + 1,
               processed_count := processed_count s + 1,
               trace := trace s @
                 [Read fp (Inr content),
                  Makedirs (os_path_dirname os out_path) None,
                  Write out_path (remove_csharp_comments content) (Some e),
                  Print (''[ERROR] Failed to write '' @ out_path @ '': '' @ message e),
                  Print (''Processed: '' @ fp)]\<rparr>)) \<and>
   (process_directory os root_dir output_dir = Inr s' \<and>
    os_path_isdir os (os_path_abspath os root_dir) \<longrightarrow>
      processed_count s' = int (length (filter changed_read (trace s'))) \<and>
      (\<exists>tr. trace s' = tr @
         [Print (''Total .cs files found: '' @ str_int (file_count s')),
          Print (''Files with comments removed: '' @ str_int (processed_count s'))]))"
proof (intro conjI impI)
  assume "endswith filename ''.cs'' \<and> fp = os_path_join os subdir filename \<and>
    open_read os (trace s) fp = Inr content \<and>
    remove_csharp_comments content \<noteq> content \<and>
    (output_dir = None \<or> output_dir = Some []) \<and>
    open_write os (trace s @ [Read fp (Inr content)]) fp (remove_csharp_comments content) = Some e"
  then show "process_file os root_dir output_dir subdir filename s =
        Inr (s\<lparr>file_count := file_count s + 1,
               processed_count := processed_count s + 1,
               trace := trace s @
                 [Read fp (Inr content),
                  Write fp (remove_csharp_comments content) (Some e),
                  Print (''[ERROR] Failed to write '' @ fp @ '': '' @ message e),
                  Print (''Processed: '' @ fp)]\<rparr>)"
    by (auto simp: process_file_changed write_changed_def try_write_eq print_def emit_def)
next
  assume "endswith filename ''.cs'' \<and> fp = os_path_join os subdir filename \<and>
    open_read os (trace s) fp = Inr content \<and>
    remove_csharp_comments content \<noteq> content \<and>
    output_dir = Some out \<and> out \<noteq> [] \<and>
    out_path = os_path_join os out (os_path_relpath os fp root_dir) \<and>
    os_makedirs os (trace s @ [Read fp (Inr content)]) (os_path_dirname os out_path) = None \<and>
    open_write os (trace s @ [Read fp (Inr content), Makedirs (os_path_dirname os out_path) None])
      out_path (remove_csharp_comments content) = Some e"
  then show "process_file os root_dir output_dir subdir filename s =
        Inr (s\<lparr>file_count := file_count s + 1,
               processed_count := processed_count s + 1,
               trace := trace s @
                 [Read fp (Inr content),
                  Makedirs (os_path_dirname os out_path) None,
                  Write out_path (remove_csharp_comments content) (Some e),
                  Print (''[ERROR] Failed to write '' @ out_path @ '': '' @ message e),
                  Print (''Processed: '' @ fp)]\<rparr>)"
    by (auto simp: process_file_changed write_changed_def try_write_eq print_def emit_def Let_def)
next
  assume a: "process_directory os root_dir output_dir = Inr s' \<and>
    os_path_isdir os (os_path_abspath os root_dir)"
  from a run_inv_process_directory[of os root_dir output_dir]
  show "processed_count s' = int (length (filter changed_read (trace s')))"
    by (simp add: run_inv_def)
  from a process_directory_summary[of os root_dir output_dir s']
  show "\<exists>tr. trace s' = tr @
         [Print (''Total .cs files found: '' @ str_int (file_count s')),
          Print (''Files with comments removed: '' @ str_int (processed_count s'))]"
    by auto
qed

theorem changed_count_precedes_write_witness:
  "process_directory
     (sample_os [''a.cs'', ''b.cs''] sample_reads (\<lambda>d. None) (\<lambda>p. Some (Exception ''Read-only file system'')))
     ''/R'' None =
     Inr \<lparr>file_count = 2, processed_count = 1,
          trace = [Read ''/R/a.cs'' (Inr ''x(); // end''),
                   Write ''/R/a.cs'' ''x(); '' (Some (Exception ''Read-only file system'')),
                   Print ''[ERROR] Failed to write /R/a.cs: Read-only file system'',
                   Print ''Processed: /R/a.cs'',
                   Read ''/R/b.cs'' (Inr ''y();''), Print ''Processed: /R/b.cs'',
                   Print ''Total .cs files found: 2'',
                   Print ''Files with comments removed: 1'']\<rparr> \<and>
   process_file
     (sample_os [''a.cs'', ''b.cs''] sample_reads (\<lambda>d. None) (\<lambda>p. Some (Exception ''Read-only file system'')))
     ''/R'' None ''/R'' ''a.cs'' initial_state =
     Inr \<lparr>file_count = 1, processed_count = 1,
          trace = [Read ''/R/a.cs'' (Inr ''x(); // end''),
                   Write ''/R/a.cs'' ''x(); '' (Some (Exception ''Read-only file system'')),
                   Print ''[ERROR] Failed to write /R/a.cs: Read-only file system'',
                   Print ''Processed: /R/a.cs'']\<rparr> \<and>
   process_file
     (sample_os [''a.cs'', ''b.cs''] sample_reads (\<lambda>d. None) (\<lambda>p. Some (Exception ''Read-only file system'')))
     ''/R'' (Some ''/O'') ''/R'' ''a.cs'' initial_state =
     Inr \<lparr>file_count = 1, processed_count = 1,
          trace = [Read ''/R/a.cs'' (Inr ''x(); // end''),
                   Makedirs ''/O'' None,
                   Write ''/O/a.cs'' ''x(); '' (Some (Exception ''Read-only file system'')),
                   Print ''[ERROR] Failed to write /O/a.cs: Read-only file system'',
                   Print ''Processed: /R/a.cs'']\<rparr> \<and>
   (1::int) = int (length (filter changed_read
         [Read ''/R/a.cs'' (Inr ''x(); // end''),
          Write ''/R/a.cs'' ''x(); '' (Some (Exception ''Read-only file system'')),
          Print ''[ERROR] Failed to write /R/a.cs: Read-only file system'',
          Print ''Processed: /R/a.cs'',
          Read ''/R/b.cs'' (Inr ''y();''), Print ''Processed: /R/b.cs'',
          Print ''Total .cs files found: 2'',
          Print ''Files with comments removed: 1'']))"
proof -
  let ?e = "Exception ''Read-only file system''"
  let ?os = "sample_os [''a.cs'', ''b.cs''] sample_reads (\<lambda>d. None) (\<lambda>p. Some ?e)"
  let ?s = "\<lparr>file_count = 2, processed_count = 1,
          trace = [Read ''/R/a.cs'' (Inr ''x(); // end''),
                   Write ''/R/a.cs'' ''x(); '' (Some ?e),
                   Print ''[ERROR] Failed to write /R/a.cs: Read-only file system'',
                   Print ''Processed: /R/a.cs'',
                   Read ''/R/b.cs'' (Inr ''y();''), Print ''Processed: /R/b.cs'',
                   Print ''Total .cs files found: 2'',
                   Print ''Files with comments removed: 1'']\<rparr>"
  have h1: "endswith ''a.cs'' ''.cs''"
    by (simp add: endswith_def suffix_Cons)
  have jn: "''/R/a.cs'' = os_path_join ?os ''/R'' ''a.cs''"
    by (simp add: sample_os_def)
  have h2: "open_read ?os (trace initial_state) ''/R/a.cs'' = Inr ''x(); // end''"
    by (simp add: sample_os_def sample_reads_def)
  have st: "remove_csharp_comments ''x(); // end'' = ''x(); ''"
    by (simp add: rcc_pieces pattern_def replacer_def)
  then have h3: "remove_csharp_comments ''x(); // end'' \<noteq> ''x(); // end''"
    by simp
  have h4: "open_write ?os (trace initial_state @ [Read ''/R/a.cs'' (Inr ''x(); // end'')]) ''/R/a.cs''
      (remove_csharp_comments ''x(); // end'') = Some ?e"
    by (simp add: sample_os_def)
  have op: "''/O/a.cs'' = os_path_join ?os ''/O'' (os_path_relpath ?os ''/R/a.cs'' ''/R'')"
    by (simp add: sample_os_def)
  have dn: "os_path_dirname ?os ''/O/a.cs'' = ''/O''"
    by (simp add: sample_os_def)
  have h5: "os_makedirs ?os (trace initial_state @ [Read ''/R/a.cs'' (Inr ''x(); // end'')])
      (os_path_dirname ?os ''/O/a.cs'') = None"
    by (simp add: sample_os_def)
  have h6: "open_write ?os (trace initial_state @ [Read ''/R/a.cs'' (Inr ''x(); // end''),
        Makedirs (os_path_dirname ?os ''/O/a.cs'') None])
      ''/O/a.cs'' (remove_csharp_comments ''x(); // end'') = Some ?e"
    by (simp add: sample_os_def)
  have h7: "process_directory ?os ''/R'' None = Inr ?s"
    by (simp add: run_simps)
  have h8: "os_path_isdir ?os (os_path_abspath ?os ''/R'')"
    by (simp add: sample_os_def)
  from changed_count_precedes_write[of "''a.cs''" "''/R/a.cs''" ?os "''/R''" initial_state
      "''x(); // end''" None ?e "''/R''" "''/O''" "''/O/a.cs''" ?s] h1 jn h2 h3 h4 h7 h8
  have "process_file ?os ''/R'' None ''/R'' ''a.cs'' initial_state =
        Inr (initial_state\<lparr>file_count := file_count initial_state + 1,
               processed_count := processed_count initial_state + 1,
               trace := trace initial_state @
                 [Read ''/R/a.cs'' (Inr ''x(); // end''),
                  Write ''/R/a.cs'' (remove_csharp_comments ''x(); // end'') (Some ?e),
                  Print (''[ERROR] Failed to write '' @ ''/R/a.cs'' @ '': '' @ message ?e),
                  Print (''Processed: '' @ ''/R/a.cs'')]\<rparr>)"
    and 3: "processed_count ?s = int (length (filter changed_read (trace ?s)))"
    by blast+
  then have 1: "process_file ?os ''/R'' None ''/R'' ''a.cs'' initial_state =
     Inr \<lparr>file_count = 1, processed_count = 1,
          trace = [Read ''/R/a.cs'' (Inr ''x(); // end''),
                   Write ''/R/a.cs'' ''x(); '' (Some ?e),
                   Print ''[ERROR] Failed to write /R/a.cs: Read-only file system'',
                   Print ''Processed: /R/a.cs'']\<rparr>"
    by (simp add: st initial_state_def)
  from changed_count_precedes_write[of "''a.cs''" "''/R/a.cs''" ?os "''/R''" initial_state
      "''x(); // end''" "Some ''/O''" ?e "''/R''" "''/O''" "''/O/a.cs''" ?s] h1 jn h2 h3 op h5 h6
  have "process_file ?os ''/R'' (Some ''/O'') ''/R'' ''a.cs'' initial_state =
        Inr (initial_state\<lparr>file_count := file_count initial_state + 1,
               processed_count := processed_count initial_state + 1,
               trace := trace initial_state @
                 [Read ''/R/a.cs'' (Inr ''x(); // end''),
                  Makedirs (os_path_dirname ?os ''/O/a.cs'') None,
                  Write ''/O/a.cs'' (remove_csharp_comments ''x(); // end'') (Some ?e),
                  Print (''[ERROR] Failed to write '' @ ''/O/a.cs'' @ '': '' @ message ?e),
                  Print (''Processed: '' @ ''/R/a.cs'')]\<rparr>)"
    by blast
  then have 2: "process_file ?os ''/R'' (Some ''/O'') ''/R'' ''a.cs'' initial_state =
     Inr \<lparr>file_count = 1, processed_count = 1,
          trace = [Read ''/R/a.cs'' (Inr ''x(); // end''),
                   Makedirs ''/O'' None,
                   Write ''/O/a.cs'' ''x(); '' (Some ?e),
                   Print ''[ERROR] Failed to write /O/a.cs: Read-only file system'',
                   Print ''Processed: /R/a.cs'']\<rparr>"
    by (simp add: st dn initial_state_def)
  from 3 have 4: "(1::int) = int (length (filter changed_read (trace ?s)))"
    by simp
  from h7 1 2 4 show ?thesis
    by (simp only: run_state.simps simp_thms)
qed


end
